theory Spec2Isabelle
  imports Main
begin

section \<open>The text tools used by \<open>copy-template.sh\<close>\<close>

text \<open>
  The scaffolding script is a bash script. Shell strings are byte strings, modelled as
  \<^typ>\<open>string\<close>; the external tools it pipes text through (\<open>echo\<close>, \<open>tr\<close>, \<open>sed\<close>,
  \<open>basename\<close>) are modelled as functions from their input text to their output text, in the
  C locale (one byte is one character, \<open>[:upper:]\<close> is \<open>A-Z\<close>, \<open>[a-z]\<close> is the ASCII range).
\<close>

abbreviation nl :: char where "nl \<equiv> CHR 0x0A"
abbreviation hyphen :: char where "hyphen \<equiv> CHR ''-''"
abbreviation space :: char where "space \<equiv> CHR '' ''"
abbreviation slash :: char where "slash \<equiv> CHR ''/''"

definition is_upper :: "char \<Rightarrow> bool" where
  "is_upper c \<longleftrightarrow> 65 \<le> (of_char c :: nat) \<and> (of_char c :: nat) \<le> 90"

definition is_lower :: "char \<Rightarrow> bool" where
  "is_lower c \<longleftrightarrow> 97 \<le> (of_char c :: nat) \<and> (of_char c :: nat) \<le> 122"

definition is_digit :: "char \<Rightarrow> bool" where
  "is_digit c \<longleftrightarrow> 48 \<le> (of_char c :: nat) \<and> (of_char c :: nat) \<le> 57"

text \<open>The bracket expression \<open>[a-z0-9]\<close>.\<close>

definition alnum :: "char \<Rightarrow> bool" where
  "alnum c \<longleftrightarrow> is_lower c \<or> is_digit c"

definition to_lower :: "char \<Rightarrow> char" where
  "to_lower c = (if is_upper c then char_of (of_char c + 32 :: nat) else c)"

definition to_upper :: "char \<Rightarrow> char" where
  "to_upper c = (if is_lower c then char_of (of_char c - 32 :: nat) else c)"

subsection \<open>Command substitution and \<open>echo\<close>\<close>

text \<open>\<open>$(...)\<close> yields the command's output with every trailing newline removed.\<close>

definition cmd_subst :: "string \<Rightarrow> string" where
  "cmd_subst out = rev (dropWhile (\<lambda>c. c = nl) (rev out))"

text \<open>
  The bash builtin \<open>echo "$X"\<close> with one argument. An argument that is a hyphen followed
  by one or more of the letters \<open>n\<close>, \<open>e\<close>, \<open>E\<close> is taken as options and not printed;
  \<open>n\<close> among them suppresses the newline. Everything else is printed, followed by a newline.
\<close>

definition echo_options :: "string \<Rightarrow> bool" where
  "echo_options a =
     (case a of
        [] \<Rightarrow> False
      | c # opts \<Rightarrow> c = hyphen \<and> opts \<noteq> [] \<and> list_all (\<lambda>x. x \<in> set ''neE'') opts)"

definition echo :: "string \<Rightarrow> string" where
  "echo a =
     (if echo_options a then (if CHR ''n'' \<in> set a then [] else [nl])
      else a @ [nl])"

subsection \<open>\<open>tr\<close>\<close>

text \<open>\<open>tr '[:upper:]' '[:lower:]'\<close> and \<open>tr '-' ' '\<close>: byte by byte over the whole input.\<close>

definition tr_upper_lower :: "string \<Rightarrow> string" where
  "tr_upper_lower inp = map to_lower inp"

definition tr_hyphen_space :: "string \<Rightarrow> string" where
  "tr_hyphen_space inp = map (\<lambda>c. if c = hyphen then space else c) inp"

subsection \<open>\<open>sed\<close>: line by line\<close>

text \<open>
  \<open>sed\<close> reads its input line by line, applies the script to each line without its
  newline, and prints the line with the newline put back. \<open>segs\<close> cuts a text at every
  newline, \<open>join\<close> is its inverse. A text that ends in a newline (or is empty) has an empty
  last segment, which is not a line: \<open>sed\<close> leaves it alone (GNU \<open>sed\<close> does not add a
  newline to a last line that has none).
\<close>

fun segs :: "string \<Rightarrow> string list" where
  "segs [] = [[]]"
| "segs (c # cs) =
     (if c = nl then [] # segs cs
      else (case segs cs of [] \<Rightarrow> [[c]] | l # ls \<Rightarrow> (c # l) # ls))"

fun join :: "string list \<Rightarrow> string" where
  "join [] = []"
| "join [l] = l"
| "join (l # ls) = l @ nl # join ls"

fun map_lines :: "(string \<Rightarrow> string) \<Rightarrow> string list \<Rightarrow> string list" where
  "map_lines f [] = []"
| "map_lines f [l] = [if l = [] then [] else f l]"
| "map_lines f (l # ls) = f l # map_lines f ls"

definition sed :: "(string \<Rightarrow> string) \<Rightarrow> string \<Rightarrow> string" where
  "sed script inp = join (map_lines script (segs inp))"

text \<open>
  \<open>s/[^a-z0-9]+/-/g\<close> on one line: every maximal run of characters outside \<open>[a-z0-9]\<close>
  becomes one hyphen. This is the C locale, where every byte is a character and so is either
  inside the bracket expression or outside it. The script sets no locale: under a UTF-8 locale
  GNU \<open>sed\<close> matches neither \<open>[a-z0-9]\<close> nor \<open>[^a-z0-9]\<close> against a byte that is not
  part of a valid UTF-8 sequence and copies it to the output, which this model does not cover.
\<close>

function squeeze :: "string \<Rightarrow> string" where
  "squeeze [] = []"
| "squeeze (c # cs) =
     (if alnum c then c # squeeze cs
      else hyphen # squeeze (dropWhile (\<lambda>x. \<not> alnum x) cs))"
  by pat_completeness auto
termination
  by (relation "measure length") (auto simp: less_Suc_eq_le length_dropWhile_le)

text \<open>
  \<open>s/^-+|-+$//g\<close> on one line: the run of hyphens at the start of the line and the run of
  hyphens at its end are deleted (a run in the middle is followed by another character, so
  \<open>-+$\<close> does not match there).
\<close>

definition trim :: "string \<Rightarrow> string" where
  "trim l = rev (dropWhile (\<lambda>c. c = hyphen) (rev (dropWhile (\<lambda>c. c = hyphen) l)))"

text \<open>
  \<open>s/(^|-)([a-z])/\U\2/g\<close> on one line (GNU \<open>sed\<close>, where \<open>\U\<close> turns the rest of the
  replacement to upper case): a lowercase letter at the start of the line is replaced by its
  capital; a hyphen followed by a lowercase letter is replaced, hyphen and letter together,
  by the capital of the letter alone, group 1 not being part of the replacement. \<open>^\<close> matches
  at the start of the line only, so \<open>capitalize_rest\<close> is the scan after the first match.
\<close>

fun capitalize_rest :: "string \<Rightarrow> string" where
  "capitalize_rest [] = []"
| "capitalize_rest [c] = [c]"
| "capitalize_rest (c # d # cs) =
     (if c = hyphen \<and> is_lower d then to_upper d # capitalize_rest cs
      else c # capitalize_rest (d # cs))"

fun capitalize :: "string \<Rightarrow> string" where
  "capitalize [] = []"
| "capitalize (c # cs) =
     (if is_lower c then to_upper c # capitalize_rest cs else capitalize_rest (c # cs))"

subsection \<open>\<open>basename\<close>\<close>

text \<open>
  \<open>basename PATH\<close> for an operand that the tool takes as a path: the empty string for the
  empty path, \<open>/\<close> for a path of slashes only, otherwise the part after the last slash once
  the trailing slashes are removed. The tool prints the name and a newline. An operand that
  starts with a hyphen and is longer than the hyphen alone is not taken as a path but read
  as options (\<open>reads_as_options\<close>); what the tool prints then is not a function of the
  path, and \<open>basename_cmd\<close> below takes it from the environment.
\<close>

definition reads_as_options :: "string \<Rightarrow> bool" where
  "reads_as_options p = (case p of c # d # cs \<Rightarrow> c = hyphen | _ \<Rightarrow> False)"

definition strip_trailing_slashes :: "string \<Rightarrow> string" where
  "strip_trailing_slashes p = rev (dropWhile (\<lambda>c. c = slash) (rev p))"

definition basename :: "string \<Rightarrow> string" where
  "basename p =
     (if p = [] then [nl]
      else if list_all (\<lambda>c. c = slash) p then [slash, nl]
      else rev (takeWhile (\<lambda>c. c \<noteq> slash) (rev (strip_trailing_slashes p))) @ [nl])"

section \<open>Identifier derivation (step 4 of the script)\<close>

text \<open>\<open>BASENAME=$(basename "$TARGET_DIR")\<close>, for a target that is taken as a path.\<close>

definition BASENAME :: "string \<Rightarrow> string" where
  "BASENAME TARGET_DIR = cmd_subst (basename TARGET_DIR)"

text \<open>
  \<open>APP_SLUG=$(echo "$BASENAME" | tr '[:upper:]' '[:lower:]' | sed -E 's/[^a-z0-9]+/-/g' | sed -E 's/^-+|-+$//g')\<close>
\<close>

definition APP_SLUG :: "string \<Rightarrow> string" where
  "APP_SLUG b = cmd_subst (sed trim (sed squeeze (tr_upper_lower (echo b))))"

text \<open>\<open>APP_NAME=$(echo "$APP_SLUG" | sed -E 's/(^|-)([a-z])/\U\2/g' | tr '-' ' ')\<close>\<close>

definition APP_NAME :: "string \<Rightarrow> string" where
  "APP_NAME slug = cmd_subst (tr_hyphen_space (sed capitalize (echo slug)))"


section \<open>Placeholder substitution\<close>

text \<open>
  The two \<open>sed\<close> scripts of the rewrite loop are \<open>s#PATTERN#REPLACEMENT#g\<close> with a basic
  regular expression whose only special character is the dot: an \<open>atom\<close> is a literal
  character or the dot, which stands for any one character.
\<close>

datatype atom = Lit char | Any

definition bre :: "string \<Rightarrow> atom list" where
  "bre pat = map (\<lambda>c. if c = CHR ''.'' then Any else Lit c) pat"

fun atom_matches :: "atom \<Rightarrow> char \<Rightarrow> bool" where
  "atom_matches (Lit a) c = (a = c)"
| "atom_matches Any c = True"

fun match_at :: "atom list \<Rightarrow> string \<Rightarrow> bool" where
  "match_at [] l = True"
| "match_at (a # as) [] = False"
| "match_at (a # as) (c # cs) = (atom_matches a c \<and> match_at as cs)"

text \<open>
  The \<open>g\<close> flag on one line: scan from the left; where the pattern matches, emit the
  replacement and resume after the matched text (\<open>length pat\<close> characters, one of which is
  \<open>c\<close>), otherwise copy one character.
\<close>

fun gsub :: "atom list \<Rightarrow> string \<Rightarrow> string \<Rightarrow> string" where
  "gsub pat repl [] = []"
| "gsub pat repl (c # cs) =
     (if match_at pat (c # cs) then repl @ gsub pat repl (drop (length pat - 1) cs)
      else c # gsub pat repl cs)"

definition PLACEHOLDER_SLUG_APP_JSON :: string where
  "PLACEHOLDER_SLUG_APP_JSON = ''lenmie-expo-template''"

definition PLACEHOLDER_BUNDLE_ID_PREFIX :: string where
  "PLACEHOLDER_BUNDLE_ID_PREFIX = ''com.javiso.''"

definition TARGET_FILES :: "string list" where
  "TARGET_FILES = [''app.json'', ''package.json'']"

section \<open>The script\<close>

text \<open>
  The destination tree is a map from a file's name relative to \<open>$TARGET_DIR\<close> to its
  contents. What the script cannot decide by itself comes from the environment: whether the
  target is a directory, the operator's reply, the exit statuses of \<open>mkdir\<close>, \<open>rsync\<close>,
  \<open>sed\<close> and \<open>echo\<close>, the tree that \<open>rsync\<close> leaves behind, what \<open>basename\<close> prints on standard output
  when it reads the target as options (nothing when it is an error, the usage or version
  text for \<open>--help\<close> and \<open>--version\<close>), and whether a \<open>sed -i\<close> run
  wrote its file back (BSD \<open>sed\<close>, whose \<open>-i ''\<close> the script uses, writes the file and exits
  0 unless the file system refuses; GNU \<open>sed\<close> reads \<open>''\<close> as a missing input file, still
  rewrites the target and exits 2).
\<close>

type_synonym tree = "string \<rightharpoonup> string"

datatype pass = SlugPass | BundlePass

record env =
  is_dir :: "string \<Rightarrow> bool"
  REPLY :: string
  mkdir_status :: nat
  dest_before :: tree
  rsync_status :: nat
  rsync_dest :: tree
  basename_stdout :: "string \<Rightarrow> string"
  sed_status :: "string \<Rightarrow> pass \<Rightarrow> nat"
  sed_writes :: "string \<Rightarrow> pass \<Rightarrow> bool"
  echo_status :: nat

datatype message =
    Usage | UsageExample
  | WarnExists string | Blank | Cancelled
  | MkdirError string
  | TargetDirectory string | Rule | Copying
  | CopyError | CopyOk string
  | DerivedName string | DerivedSlug string
  | Replacing | Processing string
  | WarnFailed string | WarnNotFound string
  | ReplacedOk | SetupComplete | NextSteps string
  | ReplaceError

datatype event =
    Print message
  | Prompt
  | Mkdir string
  | Rsync string
  | Sed string pass

text \<open>The shell's state: \<open>$?\<close>, what has been run so far, and the destination tree.\<close>

record sh =
  status :: nat
  trace :: "event list"
  files :: tree

datatype outcome = Exit nat sh | Continue sh

definition run :: "event \<Rightarrow> nat \<Rightarrow> sh \<Rightarrow> sh" where
  "run ev st s = s\<lparr>status := st, trace := trace s @ [ev]\<rparr>"

definition print :: "env \<Rightarrow> message \<Rightarrow> sh \<Rightarrow> sh" where
  "print e m s = run (Print m) (echo_status e) s"

text \<open>\<open>[[ $REPLY =~ ^[yY]$ ]]\<close>\<close>

definition reply_yes :: "string \<Rightarrow> bool" where
  "reply_yes r \<longleftrightarrow> r = ''y'' \<or> r = ''Y''"

text \<open>Step 2 (lines 26 to 36): an existing target needs the operator's yes, a missing one is created.\<close>

definition resolve_target :: "env \<Rightarrow> string \<Rightarrow> sh \<Rightarrow> outcome" where
  "resolve_target e TARGET_DIR s =
     (if is_dir e TARGET_DIR then
        let s1 = print e (WarnExists TARGET_DIR) s;
            s2 = run Prompt 0 s1;
            s3 = print e Blank s2
        in if \<not> reply_yes (REPLY e) then Exit 1 (print e Cancelled s3)
           else Continue s3
      else
        let s1 = run (Mkdir TARGET_DIR) (mkdir_status e) s
        in if mkdir_status e \<noteq> 0 then Exit 1 (print e (MkdirError TARGET_DIR) s1)
           else Continue s1)"

text \<open>Step 3 (lines 49 to 63): \<open>rsync\<close>, then the check of its status.\<close>

definition copy_tree :: "env \<Rightarrow> string \<Rightarrow> sh \<Rightarrow> outcome" where
  "copy_tree e TARGET_DIR s =
     (let s1 = (run (Rsync TARGET_DIR) (rsync_status e) s)\<lparr>files := rsync_dest e\<rparr>
      in if status s1 \<noteq> 0 then Exit 1 (print e CopyError s1)
         else Continue s1)"

text \<open>
  \<open>sed -i '' -e "s#PATTERN#REPLACEMENT#g" "$FILE_PATH"\<close>. The shell pastes the replacement
  into the script: a newline in it ends the script inside the \<open>s\<close> command, and \<open>sed\<close> exits
  1 without reading the file (no other character that \<open>APP_SLUG\<close> can produce is special in
  a replacement). A file that is not there cannot be written.
\<close>

definition sed_i :: "env \<Rightarrow> string \<Rightarrow> pass \<Rightarrow> string \<Rightarrow> string \<Rightarrow> sh \<Rightarrow> sh" where
  "sed_i e file_name p pat repl s =
     (if nl \<in> set repl then run (Sed file_name p) 1 s
      else
        let s1 = run (Sed file_name p) (sed_status e file_name p) s
        in case files s file_name of
             None \<Rightarrow> s1
           | Some text \<Rightarrow>
               if sed_writes e file_name p
               then s1\<lparr>files := (files s)(file_name \<mapsto> sed (gsub (bre pat) repl) text)\<rparr>
               else s1)"

text \<open>
  The body of the loop (lines 102 to 120). The \<open>$?\<close> read on line 115 follows the \<open>if\<close> of
  line 111: that is the status of the second \<open>sed\<close> when the file is \<open>app.json\<close>, and 0 for
  any other file, where no branch of the \<open>if\<close> ran. An \<open>if\<close> whose condition is false and
  that has no \<open>else\<close> leaves \<open>$?\<close> at 0.
\<close>

definition process_file :: "env \<Rightarrow> string \<Rightarrow> string \<Rightarrow> sh \<Rightarrow> sh" where
  "process_file e slug file_name s =
     (if files s file_name \<noteq> None then
        let s1 = print e (Processing file_name) s;
            s2 = sed_i e file_name SlugPass PLACEHOLDER_SLUG_APP_JSON slug s1;
            s3 = (if file_name = ''app.json''
                  then sed_i e file_name BundlePass
                         (PLACEHOLDER_BUNDLE_ID_PREFIX @ PLACEHOLDER_SLUG_APP_JSON)
                         (PLACEHOLDER_BUNDLE_ID_PREFIX @ slug) s2
                  else s2\<lparr>status := 0\<rparr>)
        in if status s3 \<noteq> 0 then print e (WarnFailed file_name) s3
           else s3\<lparr>status := 0\<rparr>
      else print e (WarnNotFound file_name) s)"

fun rewrite_loop :: "env \<Rightarrow> string \<Rightarrow> string list \<Rightarrow> sh \<Rightarrow> sh" where
  "rewrite_loop e slug [] s = s"
| "rewrite_loop e slug (file_name # rest) s =
     rewrite_loop e slug rest (process_file e slug file_name s)"

text \<open>The output of \<open>basename "$TARGET_DIR"\<close> on line 69, whatever the target.\<close>

definition basename_cmd :: "env \<Rightarrow> string \<Rightarrow> string" where
  "basename_cmd e p = (if reads_as_options p then basename_stdout e p else basename p)"

text \<open>Steps 4 and 5 (lines 65 to 135), entered once the copy has succeeded.\<close>

definition derive_and_rewrite :: "env \<Rightarrow> string \<Rightarrow> sh \<Rightarrow> nat \<times> sh" where
  "derive_and_rewrite e TARGET_DIR s =
     (let s1 = print e Rule (print e (CopyOk TARGET_DIR) s);
          b = cmd_subst (basename_cmd e TARGET_DIR);
          slug = APP_SLUG b;
          name = APP_NAME slug;
          s2 = print e Replacing (print e Rule
                 (print e (DerivedSlug slug) (print e (DerivedName name) s1)));
          s3 = rewrite_loop e slug TARGET_FILES s2;
          s4 = print e Rule s3
      in if status s4 = 0
         then (echo_status e,
               print e (NextSteps TARGET_DIR) (print e SetupComplete (print e ReplacedOk s4)))
         else (1, print e ReplaceError s4))"

text \<open>
  The whole script: its exit code and its final state. A script that runs off its end exits
  with the status of its last command, here the last \<open>echo\<close> of the success branch.
\<close>

definition main :: "env \<Rightarrow> string list \<Rightarrow> nat \<times> sh" where
  "main e args =
     (let s0 = \<lparr>status = 0, trace = [], files = dest_before e\<rparr> in
      if length args \<noteq> 1 then (1, print e UsageExample (print e Usage s0))
      else
        let TARGET_DIR = hd args in
        case resolve_target e TARGET_DIR s0 of
          Exit code s \<Rightarrow> (code, s)
        | Continue s1 \<Rightarrow>
            (case copy_tree e TARGET_DIR
                    (print e Copying (print e Rule (print e (TargetDirectory TARGET_DIR) s1))) of
               Exit code s \<Rightarrow> (code, s)
             | Continue s2 \<Rightarrow> derive_and_rewrite e TARGET_DIR s2))"

definition exit_code :: "nat \<times> sh \<Rightarrow> nat" where
  "exit_code r = fst r"

definition final :: "nat \<times> sh \<Rightarrow> sh" where
  "final r = snd r"


section \<open>Properties and sample inputs\<close>

text \<open>The characters of a slug, and a hyphen at either end.\<close>

definition slug_char :: "char \<Rightarrow> bool" where
  "slug_char c \<longleftrightarrow> is_lower c \<or> is_digit c \<or> c = hyphen"

definition leading_hyphen :: "string \<Rightarrow> bool" where
  "leading_hyphen l = (case l of [] \<Rightarrow> False | c # cs \<Rightarrow> c = hyphen)"

definition trailing_hyphen :: "string \<Rightarrow> bool" where
  "trailing_hyphen l = leading_hyphen (rev l)"

text \<open>
  A line in slug form: slug characters only, no two hyphens in a row, no hyphen at either
  end. \<open>slug_of_line\<close> is what the three tools after \<open>echo\<close> do to one line, and
  \<open>strip_blank\<close> removes the empty lines at the end of a text, as command substitution does.
\<close>

definition single_hyphens :: "string \<Rightarrow> bool" where
  "single_hyphens l = successively (\<lambda>a b. \<not> (a = hyphen \<and> b = hyphen)) l"

definition slug_line :: "string \<Rightarrow> bool" where
  "slug_line l \<longleftrightarrow>
     list_all slug_char l \<and> single_hyphens l \<and> \<not> leading_hyphen l \<and> \<not> trailing_hyphen l"

definition strip_blank :: "string list \<Rightarrow> string list" where
  "strip_blank ls = rev (dropWhile (\<lambda>l. l = []) (rev ls))"

definition slug_of_line :: "string \<Rightarrow> string" where
  "slug_of_line l = trim (squeeze (map to_lower l))"

text \<open>\<open>contains text sub\<close>: \<open>sub\<close> occurs somewhere in \<open>text\<close>.\<close>

fun contains :: "string \<Rightarrow> string \<Rightarrow> bool" where
  "contains [] sub = (sub = [])"
| "contains (c # cs) sub = (take (length sub) (c # cs) = sub \<or> contains cs sub)"

text \<open>The events that change the file system.\<close>

fun writes_files :: "event \<Rightarrow> bool" where
  "writes_files (Mkdir d) = True"
| "writes_files (Rsync d) = True"
| "writes_files (Sed f p) = True"
| "writes_files (Print m) = False"
| "writes_files Prompt = False"

text \<open>
  A template with the two placeholders as the script's comments describe them (lines 86 and
  87): the slug \<open>lenmie-expo-template\<close> and the bundle identifier
  \<open>com.javiso.lenmieexpotemplate\<close>.
\<close>

definition template_app_json :: string where
  "template_app_json =
     ''{'' @ [nl] @
     ''  \"expo\": {'' @ [nl] @
     ''    \"name\": \"lenmie-expo-template\",'' @ [nl] @
     ''    \"slug\": \"lenmie-expo-template\",'' @ [nl] @
     ''    \"ios\": { \"bundleIdentifier\": \"com.javiso.lenmieexpotemplate\" },'' @ [nl] @
     ''    \"android\": { \"package\": \"com.javiso.lenmieexpotemplate\" }'' @ [nl] @
     ''  }'' @ [nl] @
     ''}'' @ [nl]"

definition template_package_json :: string where
  "template_package_json =
     ''{'' @ [nl] @
     ''  \"name\": \"lenmie-expo-template\",'' @ [nl] @
     ''  \"version\": \"1.0.0\"'' @ [nl] @
     ''}'' @ [nl]"

text \<open>
  An environment where the target does not exist yet and every tool succeeds; \<open>rsync\<close>
  leaves the tree \<open>t\<close> in the destination.
\<close>

definition fresh_env :: "tree \<Rightarrow> env" where
  "fresh_env t =
     \<lparr>is_dir = (\<lambda>d. False), REPLY = [], mkdir_status = 0, dest_before = Map.empty,
      rsync_status = 0, rsync_dest = t, basename_stdout = (\<lambda>p. []),
      sed_status = (\<lambda>f p. 0),
      sed_writes = (\<lambda>f p. True), echo_status = 0\<rparr>"

text \<open>The same with a \<open>sed\<close> that cannot write (exit status 4) on every file.\<close>

definition sed_failing_env :: "tree \<Rightarrow> env" where
  "sed_failing_env t = (fresh_env t)\<lparr>sed_status := (\<lambda>f p. 4), sed_writes := (\<lambda>f p. False)\<rparr>"

text \<open>The same with an \<open>rsync\<close> that fails (exit status 23) after a partial copy \<open>t\<close>.\<close>

definition copy_failing_env :: "tree \<Rightarrow> env" where
  "copy_failing_env t = (fresh_env t)\<lparr>rsync_status := 23\<rparr>"

text \<open>An existing, populated target and an operator who answers \<open>n\<close>.\<close>

definition declining_env :: "tree \<Rightarrow> env" where
  "declining_env t = (fresh_env t)\<lparr>is_dir := (\<lambda>d. True), REPLY := ''n'', dest_before := t\<rparr>"

text \<open>
  Path conditions used in the proofs: the script gets past step 2, and what it has run by the
  time \<open>rsync\<close> returns.
\<close>

definition proceeds :: "env \<Rightarrow> string \<Rightarrow> bool" where
  "proceeds e d \<longleftrightarrow> (if is_dir e d then reply_yes (REPLY e) else mkdir_status e = 0)"

definition before_copy :: "env \<Rightarrow> string \<Rightarrow> event list" where
  "before_copy e d =
     (if is_dir e d then [Print (WarnExists d), Prompt, Print Blank] else [Mkdir d])
     @ [Print (TargetDirectory d), Print Rule, Print Copying, Rsync d]"

section \<open>Sample runs\<close>

text \<open>
  C1. Run against a template whose \<open>app.json\<close> holds the slug \<open>lenmie-expo-template\<close> and
  the bundle identifier \<open>com.javiso.lenmieexpotemplate\<close>, with destination \<open>taco-app\<close>:
  the result holds the slug \<open>taco-app\<close>, but the bundle identifier is not rewritten to
  \<open>com.javiso.taco-app\<close>; it is still \<open>com.javiso.lenmieexpotemplate\<close>. The pattern of
  the second substitution is the prefix followed by the hyphenated placeholder, which the
  unhyphenated identifier does not contain.
\<close>

theorem bundle_identifier_not_rewritten:
  "contains
     (the (files (final (main (fresh_env [''app.json'' \<mapsto> template_app_json]) [''taco-app''])) ''app.json''))
     ''\"slug\": \"taco-app\"''
   \<and> \<not> contains
     (the (files (final (main (fresh_env [''app.json'' \<mapsto> template_app_json]) [''taco-app''])) ''app.json''))
     ''\"bundleIdentifier\": \"com.javiso.taco-app\"''
   \<and> contains
     (the (files (final (main (fresh_env [''app.json'' \<mapsto> template_app_json]) [''taco-app''])) ''app.json''))
     ''\"bundleIdentifier\": \"com.javiso.lenmieexpotemplate\"''
   \<and> exit_code (main (fresh_env [''app.json'' \<mapsto> template_app_json]) [''taco-app'']) = 0"
  by code_simp

text \<open>
  C2. A run in which every \<open>sed\<close> fails and no file is rewritten: the warning for
  \<open>app.json\<close> is printed, none is printed for \<open>package.json\<close>, and the script still takes
  the success branch of the final check and exits 0. The final check reads the status of the
  \<open>echo\<close> before it, not the outcome of the loop.
\<close>

theorem exit_zero_after_failed_replacement:
  "exit_code (main (sed_failing_env [''app.json'' \<mapsto> template_app_json,
                                     ''package.json'' \<mapsto> template_package_json]) [''taco-app'']) = 0
   \<and> Print (WarnFailed ''app.json'') \<in> set (trace (final (main (sed_failing_env
         [''app.json'' \<mapsto> template_app_json, ''package.json'' \<mapsto> template_package_json]) [''taco-app''])))
   \<and> Print (WarnFailed ''package.json'') \<notin> set (trace (final (main (sed_failing_env
         [''app.json'' \<mapsto> template_app_json, ''package.json'' \<mapsto> template_package_json]) [''taco-app''])))
   \<and> Print ReplacedOk \<in> set (trace (final (main (sed_failing_env
         [''app.json'' \<mapsto> template_app_json, ''package.json'' \<mapsto> template_package_json]) [''taco-app''])))
   \<and> Print ReplaceError \<notin> set (trace (final (main (sed_failing_env
         [''app.json'' \<mapsto> template_app_json, ''package.json'' \<mapsto> template_package_json]) [''taco-app''])))
   \<and> files (final (main (sed_failing_env [''app.json'' \<mapsto> template_app_json,
                                     ''package.json'' \<mapsto> template_package_json]) [''taco-app''])) ''app.json''
       = Some template_app_json"
  by code_simp

text \<open>
  C5. The display name of the slug \<open>new-awesome-app\<close> is \<open>NewAwesomeApp\<close>: the
  substitution that capitalizes a letter after a hyphen also deletes the hyphen, so no
  hyphen is left for \<open>tr\<close> to turn into a space.
\<close>

theorem display_name_drops_separators:
  "APP_NAME (APP_SLUG ''new-awesome-app'') = ''NewAwesomeApp''"
  by code_simp

text \<open>
  C6. The documented examples: the slugs are as documented, the display names are
  \<open>NewAwesomeApp\<close> and \<open>MyCoolApp\<close> instead of \<open>New Awesome App\<close> and \<open>My Cool App\<close>,
  and the basename \<open>___\<close> gives an empty slug and an empty display name.
\<close>

theorem documented_examples:
  "APP_SLUG (BASENAME ''../new-awesome-app'') = ''new-awesome-app''
   \<and> APP_NAME (APP_SLUG (BASENAME ''../new-awesome-app'')) = ''NewAwesomeApp''
   \<and> APP_SLUG (BASENAME ''My_Cool App!!'') = ''my-cool-app''
   \<and> APP_NAME (APP_SLUG (BASENAME ''My_Cool App!!'')) = ''MyCoolApp''
   \<and> APP_SLUG ''___'' = []
   \<and> APP_NAME (APP_SLUG ''___'') = []"
  by code_simp

text \<open>
  C10. The slug \<open>new-awesome-app\<close> does not survive the round trip through its display
  name: the slug of \<open>APP_NAME ''new-awesome-app''\<close> is \<open>newawesomeapp\<close>.
\<close>

theorem round_trip_loses_hyphens:
  "APP_NAME ''new-awesome-app'' = ''NewAwesomeApp''
   \<and> APP_SLUG (APP_NAME ''new-awesome-app'') = ''newawesomeapp''
   \<and> APP_SLUG (APP_NAME ''new-awesome-app'') \<noteq> ''new-awesome-app''"
  by code_simp

section \<open>The script: control flow\<close>


lemma run_simps [simp]:
  "trace (run ev st s) = trace s @ [ev]"
  "files (run ev st s) = files s"
  "status (run ev st s) = st"
  by (simp_all add: run_def)

lemma print_simps [simp]:
  "trace (print e m s) = trace s @ [Print m]"
  "files (print e m s) = files s"
  "status (print e m s) = echo_status e"
  by (simp_all add: print_def)

lemma trace_sed_i [simp]: "trace (sed_i e f p pat repl s) = trace s @ [Sed f p]"
  by (simp add: sed_i_def Let_def split: option.splits)

lemma files_sed_i_None [simp]: "files (sed_i e f p pat repl s) g = None \<longleftrightarrow> files s g = None"
  by (simp add: sed_i_def Let_def split: option.splits)

lemma process_file_absent:
  "files s f = None \<Longrightarrow> process_file e slug f s = print e (WarnNotFound f) s"
  by (simp add: process_file_def)

lemma process_file_trace_mono: "set (trace s) \<subseteq> set (trace (process_file e slug f s))"
  by (auto simp: process_file_def Let_def)

lemma process_file_None [simp]:
  "files (process_file e slug f s) g = None \<longleftrightarrow> files s g = None"
  by (simp add: process_file_def Let_def)

lemma process_file_present:
  "files s f \<noteq> None \<Longrightarrow>
     Print (Processing f) \<in> set (trace (process_file e slug f s)) \<and>
     Sed f SlugPass \<in> set (trace (process_file e slug f s))"
  by (auto simp: process_file_def Let_def)

lemma process_file_Sed:
  "Sed g p \<in> set (trace (process_file e slug f s)) \<Longrightarrow>
     Sed g p \<in> set (trace s) \<or> (g = f \<and> files s f \<noteq> None)"
  by (auto simp: process_file_def Let_def split: if_splits)

lemma rewrite_loop_trace_mono: "set (trace s) \<subseteq> set (trace (rewrite_loop e slug fs s))"
proof (induction fs arbitrary: s)
  case Nil
  show ?case by simp
next
  case (Cons f fs)
  have "set (trace s) \<subseteq> set (trace (process_file e slug f s))"
    by (rule process_file_trace_mono)
  also have "\<dots> \<subseteq> set (trace (rewrite_loop e slug fs (process_file e slug f s)))"
    by (rule Cons.IH)
  finally show ?case by simp
qed

lemma rewrite_loop_None [simp]:
  "files (rewrite_loop e slug fs s) g = None \<longleftrightarrow> files s g = None"
  by (induction fs arbitrary: s) simp_all

lemma rewrite_loop_absent:
  "f \<in> set fs \<Longrightarrow> files s f = None \<Longrightarrow>
     Print (WarnNotFound f) \<in> set (trace (rewrite_loop e slug fs s))"
proof (induction fs arbitrary: s)
  case Nil
  then show ?case by simp
next
  case (Cons g fs)
  show ?case
  proof (cases "f = g")
    case True
    with Cons.prems have "Print (WarnNotFound f) \<in> set (trace (process_file e slug g s))"
      by (simp add: process_file_absent)
    then show ?thesis
      using rewrite_loop_trace_mono [of "process_file e slug g s" e slug fs] by auto
  next
    case False
    with Cons.prems have "f \<in> set fs" by simp
    moreover from Cons.prems have "files (process_file e slug g s) f = None" by simp
    ultimately show ?thesis using Cons.IH by simp
  qed
qed

lemma rewrite_loop_present:
  "f \<in> set fs \<Longrightarrow> files s f \<noteq> None \<Longrightarrow>
     Print (Processing f) \<in> set (trace (rewrite_loop e slug fs s)) \<and>
     Sed f SlugPass \<in> set (trace (rewrite_loop e slug fs s))"
proof (induction fs arbitrary: s)
  case Nil
  then show ?case by simp
next
  case (Cons g fs)
  show ?case
  proof (cases "f = g")
    case True
    with Cons.prems have
      "Print (Processing f) \<in> set (trace (process_file e slug g s)) \<and>
       Sed f SlugPass \<in> set (trace (process_file e slug g s))"
      using process_file_present [of s g e slug] by simp
    then show ?thesis
      using rewrite_loop_trace_mono [of "process_file e slug g s" e slug fs] by auto
  next
    case False
    with Cons.prems have "f \<in> set fs" by simp
    moreover from Cons.prems have "files (process_file e slug g s) f \<noteq> None"
      by (simp del: not_None_eq)
    ultimately have
      "Print (Processing f) \<in> set (trace (rewrite_loop e slug fs (process_file e slug g s))) \<and>
       Sed f SlugPass \<in> set (trace (rewrite_loop e slug fs (process_file e slug g s)))"
      by (rule Cons.IH)
    then show ?thesis by simp
  qed
qed

lemma rewrite_loop_Sed:
  "Sed g p \<in> set (trace (rewrite_loop e slug fs s)) \<Longrightarrow>
     Sed g p \<in> set (trace s) \<or> (g \<in> set fs \<and> files s g \<noteq> None)"
proof (induction fs arbitrary: s)
  case Nil
  then show ?case by simp
next
  case (Cons f fs)
  from Cons.prems have "Sed g p \<in> set (trace (rewrite_loop e slug fs (process_file e slug f s)))"
    by simp
  then have "Sed g p \<in> set (trace (process_file e slug f s)) \<or>
             (g \<in> set fs \<and> files (process_file e slug f s) g \<noteq> None)"
    by (rule Cons.IH)
  then show ?case
    using process_file_Sed [of g p e slug f s] by auto
qed


lemma basename_cmd_path:
  "\<not> reads_as_options d \<Longrightarrow> cmd_subst (basename_cmd e d) = BASENAME d"
  by (simp add: basename_cmd_def BASENAME_def)

lemma derive_exit:
  "fst (derive_and_rewrite e d s) = (if echo_status e = 0 then 0 else 1)"
  by (simp add: derive_and_rewrite_def Let_def)

lemma derive_trace:
  "set (trace (rewrite_loop e (APP_SLUG (cmd_subst (basename_cmd e d))) TARGET_FILES
      (print e Replacing (print e Rule (print e (DerivedSlug (APP_SLUG (cmd_subst (basename_cmd e d))))
        (print e (DerivedName (APP_NAME (APP_SLUG (cmd_subst (basename_cmd e d)))))
          (print e Rule (print e (CopyOk d) s))))))))
   \<subseteq> set (trace (snd (derive_and_rewrite e d s)))"
  by (auto simp: derive_and_rewrite_def Let_def)

lemma derive_report:
  "Print ReplacedOk \<in> set (trace (snd (derive_and_rewrite e d s))) \<or>
   Print ReplaceError \<in> set (trace (snd (derive_and_rewrite e d s)))"
  by (simp add: derive_and_rewrite_def Let_def)

lemma derive_Sed:
  "Sed g p \<in> set (trace (snd (derive_and_rewrite e d s))) \<Longrightarrow>
     Sed g p \<in> set (trace s) \<or> (g \<in> set TARGET_FILES \<and> files s g \<noteq> None)"
  using rewrite_loop_Sed [of g p e "APP_SLUG (cmd_subst (basename_cmd e d))" TARGET_FILES
      "print e Replacing (print e Rule (print e (DerivedSlug (APP_SLUG (cmd_subst (basename_cmd e d))))
        (print e (DerivedName (APP_NAME (APP_SLUG (cmd_subst (basename_cmd e d)))))
          (print e Rule (print e (CopyOk d) s)))))"]
  by (auto simp: derive_and_rewrite_def Let_def split: if_splits)

text \<open>The ways through the script for one argument, up to the end of the copy.\<close>

lemma main_declined:
  "is_dir e d \<Longrightarrow> \<not> reply_yes (REPLY e) \<Longrightarrow>
     main e [d] = (1, \<lparr>status = echo_status e,
        trace = [Print (WarnExists d), Prompt, Print Blank, Print Cancelled],
        files = dest_before e\<rparr>)"
  by (simp add: main_def resolve_target_def Let_def print_def run_def)

lemma main_mkdir_failed:
  "\<not> is_dir e d \<Longrightarrow> mkdir_status e \<noteq> 0 \<Longrightarrow>
     main e [d] = (1, \<lparr>status = echo_status e,
        trace = [Mkdir d, Print (MkdirError d)],
        files = dest_before e\<rparr>)"
  by (simp add: main_def resolve_target_def Let_def print_def run_def)

lemma main_copy_failed:
  "proceeds e d \<Longrightarrow> rsync_status e \<noteq> 0 \<Longrightarrow>
     main e [d] = (1, \<lparr>status = echo_status e,
        trace = before_copy e d @ [Print CopyError],
        files = rsync_dest e\<rparr>)"
  by (simp add: main_def resolve_target_def copy_tree_def Let_def print_def run_def
      proceeds_def before_copy_def)

lemma main_copied:
  "proceeds e d \<Longrightarrow> rsync_status e = 0 \<Longrightarrow>
     main e [d] = derive_and_rewrite e d
       \<lparr>status = 0, trace = before_copy e d, files = rsync_dest e\<rparr>"
  by (simp add: main_def resolve_target_def copy_tree_def Let_def print_def run_def
      proceeds_def before_copy_def)


lemma no_Sed_before_copy: "Sed f p \<notin> set (before_copy e d)"
  by (simp add: before_copy_def)

lemma Rsync_reached:
  assumes "Rsync d \<in> set (trace (final (main e [d])))"
  shows "proceeds e d"
proof (rule ccontr)
  assume n: "\<not> proceeds e d"
  show False
  proof (cases "is_dir e d")
    case True
    with n have "\<not> reply_yes (REPLY e)" by (simp add: proceeds_def)
    with True assms show False by (simp add: main_declined final_def)
  next
    case False
    with n have "mkdir_status e \<noteq> 0" by (simp add: proceeds_def)
    with False assms show False by (simp add: main_mkdir_failed final_def)
  qed
qed

lemma CopyOk_reached:
  assumes "Print (CopyOk d) \<in> set (trace (final (main e [d])))"
  shows "proceeds e d \<and> rsync_status e = 0"
proof (rule ccontr)
  assume n: "\<not> (proceeds e d \<and> rsync_status e = 0)"
  show False
  proof (cases "proceeds e d")
    case True
    with n have "rsync_status e \<noteq> 0" by simp
    with True assms show False
      by (simp add: main_copy_failed final_def before_copy_def split: if_splits)
  next
    case False
    show False
    proof (cases "is_dir e d")
      case True
      with False have "\<not> reply_yes (REPLY e)" by (simp add: proceeds_def)
      with True assms show False by (simp add: main_declined final_def)
    next
      case d: False
      with False have "mkdir_status e \<noteq> 0" by (simp add: proceeds_def)
      with d assms show False by (simp add: main_mkdir_failed final_def)
    qed
  qed
qed

text \<open>
  C8. If the destination directory exists and the operator's reply is neither \<open>y\<close> nor
  \<open>Y\<close>, the script exits with a non-zero code, the destination tree is what it was before
  the run, and nothing that writes to the file system (\<open>mkdir\<close>, \<open>rsync\<close>, \<open>sed\<close>) has run.
\<close>

theorem declined_overwrite_has_no_side_effects:
  assumes "is_dir e d" and "REPLY e \<noteq> ''y''" and "REPLY e \<noteq> ''Y''"
  shows "exit_code (main e [d]) \<noteq> 0
       \<and> files (final (main e [d])) = dest_before e
       \<and> list_all (\<lambda>ev. \<not> writes_files ev) (trace (final (main e [d])))"
  using assms by (simp add: main_declined reply_yes_def exit_code_def final_def)

theorem declined_overwrite_witness:
  "is_dir (declining_env [''app.json'' \<mapsto> template_app_json]) ''taco-app''
   \<and> REPLY (declining_env [''app.json'' \<mapsto> template_app_json]) = ''n''
   \<and> exit_code (main (declining_env [''app.json'' \<mapsto> template_app_json]) [''taco-app'']) \<noteq> 0
   \<and> files (final (main (declining_env [''app.json'' \<mapsto> template_app_json]) [''taco-app'']))
       = [''app.json'' \<mapsto> template_app_json]
   \<and> list_all (\<lambda>ev. \<not> writes_files ev)
        (trace (final (main (declining_env [''app.json'' \<mapsto> template_app_json]) [''taco-app''])))"
proof -
  let ?e = "declining_env [''app.json'' \<mapsto> template_app_json]"
  have h1: "is_dir ?e ''taco-app''" by (simp add: declining_env_def fresh_env_def)
  have h2: "REPLY ?e = ''n''" by (simp add: declining_env_def fresh_env_def)
  have h3: "REPLY ?e \<noteq> ''y''" and h4: "REPLY ?e \<noteq> ''Y''" by (simp_all add: h2)
  have h5: "dest_before ?e = [''app.json'' \<mapsto> template_app_json]"
    by (simp add: declining_env_def fresh_env_def)
  from declined_overwrite_has_no_side_effects [OF h1 h3 h4] h1 h2 h5 show ?thesis by simp
qed

text \<open>
  C7. If \<open>rsync\<close> runs and returns a non-zero status, the script exits with a non-zero code,
  no \<open>sed\<close> is run on any file, and the destination tree is as \<open>rsync\<close> left it.
\<close>

theorem copy_failure_aborts_before_rewriting:
  assumes "Rsync d \<in> set (trace (final (main e [d])))" and "rsync_status e \<noteq> 0"
  shows "exit_code (main e [d]) \<noteq> 0
       \<and> files (final (main e [d])) = rsync_dest e
       \<and> (\<forall>f p. Sed f p \<notin> set (trace (final (main e [d]))))"
proof -
  from assms(1) have "proceeds e d" by (rule Rsync_reached)
  with assms(2) show ?thesis
    by (simp add: main_copy_failed exit_code_def final_def no_Sed_before_copy)
qed

theorem copy_failure_witness:
  "Rsync ''taco-app'' \<in> set (trace (final (main (copy_failing_env [''app.json'' \<mapsto> template_app_json]) [''taco-app''])))
   \<and> rsync_status (copy_failing_env [''app.json'' \<mapsto> template_app_json]) = 23
   \<and> exit_code (main (copy_failing_env [''app.json'' \<mapsto> template_app_json]) [''taco-app'']) \<noteq> 0
   \<and> files (final (main (copy_failing_env [''app.json'' \<mapsto> template_app_json]) [''taco-app''])) ''app.json''
       = Some template_app_json
   \<and> Sed ''app.json'' SlugPass \<notin> set (trace (final (main (copy_failing_env [''app.json'' \<mapsto> template_app_json]) [''taco-app''])))"
proof -
  let ?e = "copy_failing_env [''app.json'' \<mapsto> template_app_json]"
  have h1: "Rsync ''taco-app'' \<in> set (trace (final (main ?e [''taco-app''])))" by code_simp
  have h2: "rsync_status ?e = 23" by (simp add: copy_failing_env_def fresh_env_def)
  then have h3: "rsync_status ?e \<noteq> 0" by simp
  have h4: "rsync_dest ?e = [''app.json'' \<mapsto> template_app_json]"
    by (simp add: copy_failing_env_def fresh_env_def)
  from copy_failure_aborts_before_rewriting [OF h1 h3] h1 h2 h4 show ?thesis by simp
qed

text \<open>
  C9. In a run that gets past the copy, a target file \<open>f\<close> that is absent from the
  destination gets the not-found warning and no \<open>sed\<close>; every target file that is present
  is still processed; the final report is reached, and the exit code is 0 unless the report's
  own check fails.
\<close>

theorem missing_target_file_is_skipped:
  assumes "Print (CopyOk d) \<in> set (trace (final (main e [d])))"
      and "f \<in> set TARGET_FILES" and "rsync_dest e f = None"
  shows "Print (WarnNotFound f) \<in> set (trace (final (main e [d])))
       \<and> (\<forall>p. Sed f p \<notin> set (trace (final (main e [d]))))
       \<and> (\<forall>g \<in> set TARGET_FILES. rsync_dest e g \<noteq> None \<longrightarrow>
            Print (Processing g) \<in> set (trace (final (main e [d])))
            \<and> Sed g SlugPass \<in> set (trace (final (main e [d]))))
       \<and> (Print ReplacedOk \<in> set (trace (final (main e [d])))
            \<or> Print ReplaceError \<in> set (trace (final (main e [d]))))
       \<and> (exit_code (main e [d]) = 0 \<longleftrightarrow> echo_status e = 0)"
proof -
  let ?s = "\<lparr>status = 0, trace = before_copy e d, files = rsync_dest e\<rparr>"
  let ?slug = "APP_SLUG (cmd_subst (basename_cmd e d))"
  let ?s2 = "print e Replacing (print e Rule (print e (DerivedSlug ?slug)
        (print e (DerivedName (APP_NAME ?slug)) (print e Rule (print e (CopyOk d) ?s)))))"
  let ?loop = "rewrite_loop e ?slug TARGET_FILES ?s2"
  from assms(1) have "proceeds e d \<and> rsync_status e = 0" by (rule CopyOk_reached)
  then have m: "main e [d] = derive_and_rewrite e d ?s" by (simp add: main_copied)
  have sub: "set (trace ?loop) \<subseteq> set (trace (final (main e [d])))"
    unfolding m final_def by (rule derive_trace)
  have fs: "files ?s2 = rsync_dest e" by simp
  have "Print (WarnNotFound f) \<in> set (trace ?loop)"
    using assms(2,3) by (intro rewrite_loop_absent) (simp_all add: fs)
  with sub have c1: "Print (WarnNotFound f) \<in> set (trace (final (main e [d])))" by blast
  have c2: "Sed f p \<notin> set (trace (final (main e [d])))" for p
  proof
    assume "Sed f p \<in> set (trace (final (main e [d])))"
    then have "Sed f p \<in> set (trace ?s) \<or> (f \<in> set TARGET_FILES \<and> files ?s f \<noteq> None)"
      unfolding m final_def by (rule derive_Sed)
    with assms(3) show False by (simp add: no_Sed_before_copy)
  qed
  have c3: "Print (Processing g) \<in> set (trace (final (main e [d])))
            \<and> Sed g SlugPass \<in> set (trace (final (main e [d])))"
    if "g \<in> set TARGET_FILES" and "rsync_dest e g \<noteq> None" for g
  proof -
    from that have "files ?s2 g \<noteq> None" by (simp add: fs del: not_None_eq)
    with that(1) have "Print (Processing g) \<in> set (trace ?loop) \<and> Sed g SlugPass \<in> set (trace ?loop)"
      by (rule rewrite_loop_present)
    with sub show ?thesis by blast
  qed
  have c4: "Print ReplacedOk \<in> set (trace (final (main e [d])))
            \<or> Print ReplaceError \<in> set (trace (final (main e [d])))"
    unfolding m final_def by (rule derive_report)
  have c5: "exit_code (main e [d]) = 0 \<longleftrightarrow> echo_status e = 0"
    unfolding m exit_code_def by (simp add: derive_exit)
  from c1 c2 c3 c4 c5 show ?thesis by blast
qed

theorem missing_target_file_witness:
  "Print (CopyOk ''taco-app'') \<in> set (trace (final (main (fresh_env [''app.json'' \<mapsto> template_app_json]) [''taco-app''])))
   \<and> ''package.json'' \<in> set TARGET_FILES
   \<and> rsync_dest (fresh_env [''app.json'' \<mapsto> template_app_json]) ''package.json'' = None
   \<and> Print (WarnNotFound ''package.json'') \<in> set (trace (final (main (fresh_env [''app.json'' \<mapsto> template_app_json]) [''taco-app''])))
   \<and> Sed ''app.json'' SlugPass \<in> set (trace (final (main (fresh_env [''app.json'' \<mapsto> template_app_json]) [''taco-app''])))
   \<and> exit_code (main (fresh_env [''app.json'' \<mapsto> template_app_json]) [''taco-app'']) = 0"
proof -
  let ?e = "fresh_env [''app.json'' \<mapsto> template_app_json]"
  have h1: "Print (CopyOk ''taco-app'') \<in> set (trace (final (main ?e [''taco-app''])))"
    by code_simp
  have h2: "''package.json'' \<in> set TARGET_FILES" and h2': "''app.json'' \<in> set TARGET_FILES"
    by (simp_all add: TARGET_FILES_def)
  have h3: "rsync_dest ?e ''package.json'' = None" by (simp add: fresh_env_def)
  have h4: "rsync_dest ?e ''app.json'' \<noteq> None" by (simp add: fresh_env_def)
  have h5: "echo_status ?e = 0" by (simp add: fresh_env_def)
  from missing_target_file_is_skipped [OF h1 h2 h3] h1 h2 h2' h3 h4 h5 show ?thesis by blast
qed

section \<open>Slug derivation\<close>

subsection \<open>Characters\<close>

lemma nl_not_slug_char [simp]: "\<not> slug_char nl"
  by (simp add: slug_char_def is_lower_def is_digit_def)

lemma alnum_slug_char: "alnum c \<Longrightarrow> slug_char c"
  by (auto simp: alnum_def slug_char_def)

lemma slug_char_iff: "slug_char c \<longleftrightarrow> alnum c \<or> c = hyphen"
  by (auto simp: alnum_def slug_char_def)

lemma hyphen_not_alnum [simp]: "\<not> alnum hyphen"
  by (simp add: alnum_def is_lower_def is_digit_def)

lemma nl_not_alnum [simp]: "\<not> alnum nl"
  by (simp add: alnum_def is_lower_def is_digit_def)

lemma upper_to_lower: "is_upper c \<Longrightarrow> is_lower (to_lower c)"
  by (simp add: is_upper_def is_lower_def to_lower_def)

lemma not_upper_to_lower: "\<not> is_upper c \<Longrightarrow> to_lower c = c"
  by (simp add: to_lower_def)

lemma slug_char_not_upper: "slug_char c \<Longrightarrow> \<not> is_upper c"
  by (auto simp: slug_char_def is_upper_def is_lower_def is_digit_def)

lemma to_lower_slug_char: "slug_char c \<Longrightarrow> to_lower c = c"
  by (simp add: slug_char_not_upper not_upper_to_lower)

lemma to_lower_nl_iff [simp]: "to_lower c = nl \<longleftrightarrow> c = nl"
proof (cases "is_upper c")
  case True
  then have "is_lower (to_lower c)" by (rule upper_to_lower)
  then have "to_lower c \<noteq> nl" by (auto simp: is_lower_def)
  moreover from True have "c \<noteq> nl" by (auto simp: is_upper_def)
  ultimately show ?thesis by simp
next
  case False
  then show ?thesis by (simp add: not_upper_to_lower)
qed

subsection \<open>One line: \<open>squeeze\<close>\<close>

lemma squeeze_chars: "list_all slug_char (squeeze l)"
  by (induction l rule: squeeze.induct) (simp_all add: slug_char_iff)

lemma dropWhile_starts: "dropWhile (\<lambda>x. \<not> alnum x) cs = [] \<or> alnum (hd (dropWhile (\<lambda>x. \<not> alnum x) cs))"
  using hd_dropWhile [of "\<lambda>x. \<not> alnum x" cs] by auto

lemma squeeze_starts: "y = [] \<or> alnum (hd y) \<Longrightarrow> squeeze y = [] \<or> alnum (hd (squeeze y))"
  by (cases y) auto

lemma squeeze_single: "single_hyphens (squeeze l)"
proof (induction l rule: squeeze.induct)
  case 1
  show ?case by (simp add: single_hyphens_def)
next
  case (2 c cs)
  show ?case
  proof (cases "alnum c")
    case True
    with 2 show ?thesis
      by (auto simp: single_hyphens_def successively_Cons)
  next
    case False
    let ?r = "squeeze (dropWhile (\<lambda>x. \<not> alnum x) cs)"
    have "?r = [] \<or> alnum (hd ?r)"
      by (rule squeeze_starts) (rule dropWhile_starts)
    then have "?r = [] \<or> hd ?r \<noteq> hyphen" by auto
    with False 2 show ?thesis
      by (auto simp: single_hyphens_def successively_Cons)
  qed
qed

lemma squeeze_fix: "list_all slug_char l \<Longrightarrow> single_hyphens l \<Longrightarrow> squeeze l = l"
proof (induction l)
  case Nil
  show ?case by simp
next
  case (Cons c cs)
  from Cons.prems have cs: "list_all slug_char cs" "single_hyphens cs"
    by (auto simp: single_hyphens_def successively_Cons)
  show ?case
  proof (cases "alnum c")
    case True
    with Cons.IH cs show ?thesis by simp
  next
    case False
    with Cons.prems have c: "c = hyphen" by (simp add: slug_char_iff)
    have "dropWhile (\<lambda>x. \<not> alnum x) cs = cs"
    proof (cases cs)
      case Nil
      then show ?thesis by simp
    next
      case (Cons d ds)
      with Cons.prems c have "d \<noteq> hyphen"
        by (auto simp: single_hyphens_def)
      moreover from Cons cs have "slug_char d" by simp
      ultimately have "alnum d" by (simp add: slug_char_iff)
      with Cons show ?thesis by simp
    qed
    with False c Cons.IH cs show ?thesis by simp
  qed
qed

subsection \<open>One line: \<open>trim\<close>\<close>

lemma leading_dropWhile [simp]: "\<not> leading_hyphen (dropWhile (\<lambda>c. c = hyphen) l)"
  by (induction l) (simp_all add: leading_hyphen_def)

lemma dropWhile_no_leading: "\<not> leading_hyphen l \<Longrightarrow> dropWhile (\<lambda>c. c = hyphen) l = l"
  by (cases l) (auto simp: leading_hyphen_def)

lemma trim_fix: "\<not> leading_hyphen l \<Longrightarrow> \<not> trailing_hyphen l \<Longrightarrow> trim l = l"
  by (simp add: trim_def trailing_hyphen_def dropWhile_no_leading)

lemma trim_no_trailing: "\<not> trailing_hyphen (trim l)"
  by (simp add: trim_def trailing_hyphen_def)

lemma leading_prefix: "\<not> leading_hyphen (xs @ ys) \<Longrightarrow> \<not> leading_hyphen xs"
  by (cases xs) (auto simp: leading_hyphen_def)

lemma rev_split: "xs = rev (dropWhile P (rev xs)) @ rev (takeWhile P (rev xs))"
proof -
  have "rev xs = takeWhile P (rev xs) @ dropWhile P (rev xs)" by simp
  then have "rev (rev xs) = rev (takeWhile P (rev xs) @ dropWhile P (rev xs))"
    by (rule arg_cong)
  then show ?thesis by (simp only: rev_rev_ident rev_append)
qed

lemma trim_no_leading: "\<not> leading_hyphen (trim l)"
proof -
  let ?m = "dropWhile (\<lambda>c. c = hyphen) l"
  have "?m = trim l @ rev (takeWhile (\<lambda>c. c = hyphen) (rev ?m))"
    unfolding trim_def by (rule rev_split)
  moreover have "\<not> leading_hyphen ?m" by simp
  ultimately have "\<not> leading_hyphen (trim l @ rev (takeWhile (\<lambda>c. c = hyphen) (rev ?m)))"
    by simp
  then show ?thesis by (rule leading_prefix)
qed

lemma set_trim: "x \<in> set (trim l) \<Longrightarrow> x \<in> set l"
proof -
  assume "x \<in> set (trim l)"
  then have "x \<in> set (dropWhile (\<lambda>c. c = hyphen) (rev (dropWhile (\<lambda>c. c = hyphen) l)))"
    by (simp add: trim_def)
  then have "x \<in> set (rev (dropWhile (\<lambda>c. c = hyphen) l))" by (rule set_dropWhileD)
  then have "x \<in> set (dropWhile (\<lambda>c. c = hyphen) l)" by simp
  then show ?thesis by (rule set_dropWhileD)
qed

lemma trim_chars: "list_all P l \<Longrightarrow> list_all P (trim l)"
  by (auto simp: list_all_iff dest: set_trim)

lemma single_dropWhile: "single_hyphens l \<Longrightarrow> single_hyphens (dropWhile P l)"
proof -
  assume "single_hyphens l"
  then have "single_hyphens (takeWhile P l @ dropWhile P l)" by simp
  then show ?thesis
    unfolding single_hyphens_def successively_append_iff by simp
qed

lemma single_rev: "single_hyphens (rev l) = single_hyphens l"
  unfolding single_hyphens_def successively_rev
  by (rule arg_cong [where f = "\<lambda>P. successively P l"]) (auto simp: fun_eq_iff)

lemma trim_single: "single_hyphens l \<Longrightarrow> single_hyphens (trim l)"
  by (simp add: trim_def single_rev single_dropWhile)

text \<open>One line through the three tools.\<close>

lemma slug_line_derived: "slug_line (trim (squeeze (map to_lower l)))"
  by (simp add: slug_line_def trim_chars squeeze_chars trim_single squeeze_single
      trim_no_leading trim_no_trailing)

lemma slug_line_fix:
  assumes "slug_line l"
  shows "trim (squeeze (map to_lower l)) = l"
proof -
  from assms have "map to_lower l = l"
    by (intro map_idI) (simp add: slug_line_def list_all_iff to_lower_slug_char)
  moreover from assms have "squeeze l = l" by (simp add: slug_line_def squeeze_fix)
  moreover from assms have "trim l = l" by (simp add: slug_line_def trim_fix)
  ultimately show ?thesis by simp
qed

lemma slug_line_Nil [simp]: "slug_line []"
  by (simp add: slug_line_def single_hyphens_def leading_hyphen_def trailing_hyphen_def)

lemma slug_line_no_nl: "slug_line l \<Longrightarrow> nl \<notin> set l"
  by (auto simp: slug_line_def list_all_iff)

subsection \<open>Lines\<close>

lemma segs_not_Nil [simp]: "segs s \<noteq> []"
  by (induction s) (auto split: list.splits)

lemma segs_no_nl: "l \<in> set (segs s) \<Longrightarrow> nl \<notin> set l"
proof (induction s arbitrary: l)
  case Nil
  then show ?case by simp
next
  case (Cons c cs)
  show ?case
  proof (cases "c = nl")
    case True
    with Cons show ?thesis by auto
  next
    case False
    obtain k ks where k: "segs cs = k # ks" by (cases "segs cs") simp_all
    with False Cons.prems have "l = c # k \<or> l \<in> set ks" by simp
    with False k Cons.IH show ?thesis by auto
  qed
qed

lemma join_Cons: "join (l # ls) = (if ls = [] then l else l @ nl # join ls)"
  by (cases ls) simp_all

lemma join_segs [simp]: "join (segs s) = s"
proof (induction s)
  case Nil
  show ?case by simp
next
  case (Cons c cs)
  obtain k ks where k: "segs cs = k # ks" by (cases "segs cs") simp_all
  with Cons show ?case by (auto simp: join_Cons split: if_splits)
qed

lemma segs_line: "nl \<notin> set l \<Longrightarrow> segs l = [l]"
  by (induction l) auto

lemma segs_append_nl: "nl \<notin> set l \<Longrightarrow> segs (l @ nl # r) = l # segs r"
  by (induction l) auto

lemma segs_join: "ls \<noteq> [] \<Longrightarrow> \<forall>l \<in> set ls. nl \<notin> set l \<Longrightarrow> segs (join ls) = ls"
proof (induction ls)
  case Nil
  then show ?case by simp
next
  case (Cons l ls)
  show ?case
  proof (cases "ls = []")
    case True
    with Cons.prems show ?thesis by (simp add: segs_line)
  next
    case False
    with Cons show ?thesis by (simp add: join_Cons segs_append_nl)
  qed
qed

lemma segs_snoc_nl: "segs (s @ [nl]) = segs s @ [[]]"
proof (induction s)
  case Nil
  show ?case by simp
next
  case (Cons c cs)
  obtain k ks where k: "segs cs = k # ks" by (cases "segs cs") simp_all
  with Cons show ?case by simp
qed

lemma segs_map:
  assumes "\<And>c. f c = nl \<longleftrightarrow> c = nl"
  shows "segs (map f s) = map (map f) (segs s)"
proof (induction s)
  case Nil
  show ?case by simp
next
  case (Cons c cs)
  obtain k ks where k: "segs cs = k # ks" by (cases "segs cs") simp_all
  with Cons assms show ?case by simp
qed

lemma map_lines_map: "f [] = [] \<Longrightarrow> map_lines f ls = map f ls"
  by (induction f ls rule: map_lines.induct) simp_all

lemma sed_lines: "f [] = [] \<Longrightarrow> sed f s = join (map f (segs s))"
  by (simp add: sed_def map_lines_map)

subsection \<open>Command substitution\<close>

lemma cmd_subst_Nil [simp]: "cmd_subst [] = []"
  by (simp add: cmd_subst_def)

lemma cmd_subst_snoc_nl [simp]: "cmd_subst (x @ [nl]) = cmd_subst x"
  by (simp add: cmd_subst_def)

lemma cmd_subst_snoc: "c \<noteq> nl \<Longrightarrow> cmd_subst (x @ [c]) = x @ [c]"
  by (simp add: cmd_subst_def)

lemma join_snoc: "join (ls @ [l]) = (if ls = [] then l else join ls @ nl # l)"
  by (induction ls) (simp_all add: join_Cons)

lemma strip_blank_snoc_Nil [simp]: "strip_blank (ls @ [[]]) = strip_blank ls"
  by (simp add: strip_blank_def)

lemma strip_blank_snoc: "l \<noteq> [] \<Longrightarrow> strip_blank (ls @ [l]) = ls @ [l]"
  by (simp add: strip_blank_def)

lemma strip_blank_Nil [simp]: "strip_blank [] = []"
  by (simp add: strip_blank_def)

lemma strip_blank_idem [simp]: "strip_blank (strip_blank ls) = strip_blank ls"
  by (simp add: strip_blank_def)

lemma set_strip_blank: "l \<in> set (strip_blank ls) \<Longrightarrow> l \<in> set ls"
  unfolding strip_blank_def using set_dropWhileD by fastforce

lemma cmd_subst_join:
  "\<forall>l \<in> set ls. nl \<notin> set l \<Longrightarrow> cmd_subst (join ls) = join (strip_blank ls)"
proof (induction ls rule: rev_induct)
  case Nil
  show ?case by simp
next
  case (snoc l ls)
  then have IH: "cmd_subst (join ls) = join (strip_blank ls)" by simp
  show ?case
  proof (cases "l = []")
    case True
    show ?thesis
    proof (cases "ls = []")
      case True
      with \<open>l = []\<close> show ?thesis by (simp add: strip_blank_def)
    next
      case False
      have "join (ls @ [[]]) = join ls @ [nl]" using False by (simp add: join_snoc)
      with True IH show ?thesis by simp
    qed
  next
    case False
    then obtain x c where l: "l = x @ [c]" by (cases l rule: rev_cases) simp_all
    with snoc.prems have c: "c \<noteq> nl" by auto
    have "\<exists>y. join (ls @ [l]) = y @ [c]"
      using l by (auto simp: join_snoc)
    then obtain y where y: "join (ls @ [l]) = y @ [c]" ..
    with c have "cmd_subst (join (ls @ [l])) = join (ls @ [l])"
      by (simp add: cmd_subst_snoc)
    with False show ?thesis by (simp add: strip_blank_snoc)
  qed
qed

subsection \<open>The slug pipeline\<close>

lemma slug_of_line_slug_line [simp]: "slug_line (slug_of_line l)"
  by (simp add: slug_of_line_def slug_line_derived)

lemma slug_of_line_fix: "slug_line l \<Longrightarrow> slug_of_line l = l"
  by (simp add: slug_of_line_def slug_line_fix)

lemma slug_of_line_Nil [simp]: "slug_of_line [] = []"
  by (simp add: slug_of_line_fix)

lemma squeeze_no_nl: "nl \<notin> set (squeeze l)"
  using squeeze_chars [of l] by (auto simp: list_all_iff)

lemma trim_Nil [simp]: "trim [] = []"
  by (simp add: trim_def)

text \<open>The pipeline after \<open>echo\<close>, line by line.\<close>

lemma slug_pipeline:
  "cmd_subst (sed trim (sed squeeze (tr_upper_lower inp)))
     = join (strip_blank (map slug_of_line (segs inp)))"
proof -
  let ?ls = "map (map to_lower) (segs inp)"
  have 1: "segs (tr_upper_lower inp) = ?ls"
    unfolding tr_upper_lower_def by (rule segs_map) simp
  have 2: "sed squeeze (tr_upper_lower inp) = join (map squeeze ?ls)"
    by (simp add: sed_lines 1)
  have 3: "segs (join (map squeeze ?ls)) = map squeeze ?ls"
    by (rule segs_join) (auto simp: squeeze_no_nl)
  have "sed trim (join (map squeeze ?ls)) = join (map trim (segs (join (map squeeze ?ls))))"
    by (simp add: sed_lines)
  also have "\<dots> = join (map trim (map squeeze ?ls))"
    by (simp only: 3)
  also have "\<dots> = join (map slug_of_line (segs inp))"
    by (simp add: comp_def slug_of_line_def [abs_def])
  finally have 4:
    "sed trim (sed squeeze (tr_upper_lower inp)) = join (map slug_of_line (segs inp))"
    by (simp only: 2)
  have "\<forall>l \<in> set (map slug_of_line (segs inp)). nl \<notin> set l"
    using slug_line_no_nl [OF slug_of_line_slug_line] by auto
  then show ?thesis unfolding 4 by (rule cmd_subst_join)
qed

lemma APP_SLUG_lines: "APP_SLUG b = join (strip_blank (map slug_of_line (segs (echo b))))"
  by (simp add: APP_SLUG_def slug_pipeline)

text \<open>
  Whatever the basename, the slug holds slug characters and newlines only, so that the newline
  is the one character in it that the \<open>s\<close> command of the rewrite loop does not take
  literally in its replacement.
\<close>

lemma set_join: "c \<in> set (join ls) \<Longrightarrow> c = nl \<or> (\<exists>l \<in> set ls. c \<in> set l)"
  by (induction ls) (auto simp: join_Cons split: if_splits)

lemma APP_SLUG_chars: "c \<in> set (APP_SLUG b) \<Longrightarrow> slug_char c \<or> c = nl"
proof -
  assume "c \<in> set (APP_SLUG b)"
  then have "c = nl \<or> (\<exists>l \<in> set (strip_blank (map slug_of_line (segs (echo b)))). c \<in> set l)"
    unfolding APP_SLUG_lines by (rule set_join)
  then show ?thesis
  proof
    assume "c = nl"
    then show ?thesis by simp
  next
    assume "\<exists>l \<in> set (strip_blank (map slug_of_line (segs (echo b)))). c \<in> set l"
    then obtain l where l: "l \<in> set (strip_blank (map slug_of_line (segs (echo b))))" "c \<in> set l"
      by blast
    from l(1) have "l \<in> set (map slug_of_line (segs (echo b)))" by (rule set_strip_blank)
    then have "slug_line l" by auto
    with l(2) show ?thesis by (auto simp: slug_line_def list_all_iff)
  qed
qed

lemma echo_cases: "echo b = [] \<or> echo b = [nl] \<or> (echo b = b @ [nl] \<and> \<not> echo_options b)"
  by (simp add: echo_def)

text \<open>A basename of one line.\<close>

lemma APP_SLUG_one_line:
  assumes "nl \<notin> set b"
  shows "APP_SLUG b = (if echo_options b then [] else slug_of_line b)"
proof (cases "echo_options b")
  case True
  then have "echo b = [] \<or> echo b = [nl]" by (simp add: echo_def)
  then have "APP_SLUG b = []"
    by (auto simp: APP_SLUG_lines strip_blank_def)
  with True show ?thesis by simp
next
  case False
  then have "segs (echo b) = [b, []]"
    using assms by (simp add: echo_def segs_snoc_nl segs_line)
  then have "APP_SLUG b = join (strip_blank [slug_of_line b, []])"
    by (simp add: APP_SLUG_lines)
  also have "\<dots> = slug_of_line b"
    by (cases "slug_of_line b = []") (simp_all add: strip_blank_def)
  finally show ?thesis using False by simp
qed

text \<open>
  In the C locale of this model the newline is the only character that gets through: for
  every basename of one line the slug holds only lowercase letters, digits and hyphens, and
  neither begins nor ends with a hyphen.
\<close>

lemma slug_form_one_line:
  assumes "nl \<notin> set b"
  shows "list_all slug_char (APP_SLUG b)
       \<and> \<not> leading_hyphen (APP_SLUG b) \<and> \<not> trailing_hyphen (APP_SLUG b)"
proof -
  have "slug_line (APP_SLUG b)"
    using assms by (simp add: APP_SLUG_one_line)
  then show ?thesis by (simp add: slug_line_def)
qed

text \<open>
  C3. The slug does not hold lowercase letters, digits and hyphens only for every basename:
  for the basename of two lines \<open>a\<close>, newline, \<open>b\<close> the slug is the basename itself.
  \<open>sed\<close> works line by line and never sees the newline, so this character, which is not
  alphanumeric, is not replaced by a hyphen as the comment on line 71 says. Pasted into the
  \<open>s\<close> commands of the rewrite loop, the slug ends both scripts early: \<open>app.json\<close> is
  left as it was copied, the warning is printed, and the script exits 0.
\<close>

theorem slug_keeps_newline:
  "APP_SLUG [CHR ''a'', nl, CHR ''b''] = [CHR ''a'', nl, CHR ''b'']
   \<and> \<not> list_all slug_char (APP_SLUG [CHR ''a'', nl, CHR ''b''])
   \<and> files (final (main (fresh_env [''app.json'' \<mapsto> template_app_json])
         [[CHR ''a'', nl, CHR ''b'']])) ''app.json'' = Some template_app_json
   \<and> Print (WarnFailed ''app.json'') \<in> set (trace (final (main
         (fresh_env [''app.json'' \<mapsto> template_app_json]) [[CHR ''a'', nl, CHR ''b'']])))
   \<and> exit_code (main (fresh_env [''app.json'' \<mapsto> template_app_json])
         [[CHR ''a'', nl, CHR ''b'']]) = 0"
  by code_simp

subsection \<open>Idempotence\<close>

lemma echo_options_leading: "echo_options a \<Longrightarrow> leading_hyphen a"
  by (cases a) (simp_all add: echo_options_def leading_hyphen_def)

lemma join_not_leading:
  assumes "\<forall>l \<in> set ls. slug_line l"
  shows "\<not> leading_hyphen (join ls)"
proof (cases ls)
  case Nil
  then show ?thesis by (simp add: leading_hyphen_def)
next
  case (Cons l ks)
  with assms have "\<not> leading_hyphen l" by (simp add: slug_line_def)
  then show ?thesis
    using Cons by (cases l) (auto simp: join_Cons leading_hyphen_def)
qed

lemma segs_join_blank:
  assumes "\<forall>l \<in> set ls. nl \<notin> set l"
  shows "segs (join ls) = (if ls = [] then [[]] else ls)"
  using assms by (simp add: segs_join)

lemma APP_SLUG_fix:
  assumes lines: "\<forall>l \<in> set ls. slug_line l" and strip: "strip_blank ls = ls"
  shows "APP_SLUG (join ls) = join ls"
proof -
  have "\<not> echo_options (join ls)"
    using join_not_leading [OF lines] echo_options_leading by blast
  then have "echo (join ls) = join ls @ [nl]" by (simp add: echo_def)
  then have "segs (echo (join ls)) = segs (join ls) @ [[]]" by (simp add: segs_snoc_nl)
  moreover have "\<forall>l \<in> set ls. nl \<notin> set l" using lines by (auto dest: slug_line_no_nl)
  ultimately have s: "segs (echo (join ls)) = (if ls = [] then [[]] else ls) @ [[]]"
    by (simp add: segs_join_blank)
  have m: "map slug_of_line ls = ls"
    using lines by (intro map_idI) (simp add: slug_of_line_fix)
  show ?thesis
  proof (cases "ls = []")
    case True
    with s show ?thesis by (simp add: APP_SLUG_lines strip_blank_def)
  next
    case False
    with s m strip show ?thesis by (simp add: APP_SLUG_lines)
  qed
qed

lemma APP_SLUG_slug_line:
  assumes "slug_line s"
  shows "APP_SLUG s = s"
proof -
  from assms have "nl \<notin> set s" by (rule slug_line_no_nl)
  moreover from assms have "\<not> echo_options s"
    using echo_options_leading by (auto simp: slug_line_def)
  ultimately show ?thesis using assms by (simp add: APP_SLUG_one_line slug_of_line_fix)
qed

text \<open>
  C4. Slug derivation is idempotent: for every basename, of one line or more, deriving the
  slug of the slug gives the slug again. In particular a string already in slug form
  (lowercase letters and digits in segments separated by single hyphens, no hyphen at either
  end) is its own slug.
\<close>

theorem slug_idempotent:
  "APP_SLUG (APP_SLUG b) = APP_SLUG b \<and> (slug_line s \<longrightarrow> APP_SLUG s = s)"
proof -
  let ?ls = "strip_blank (map slug_of_line (segs (echo b)))"
  have "\<forall>l \<in> set ?ls. slug_line l"
    by (auto dest!: set_strip_blank)
  moreover have "strip_blank ?ls = ?ls" by simp
  ultimately have "APP_SLUG (join ?ls) = join ?ls" by (rule APP_SLUG_fix)
  then have "APP_SLUG (APP_SLUG b) = APP_SLUG b" by (simp add: APP_SLUG_lines [of b])
  then show ?thesis by (simp add: APP_SLUG_slug_line)
qed

theorem slug_idempotent_witness:
  "slug_line ''my-cool-app''
   \<and> APP_SLUG ''my-cool-app'' = ''my-cool-app''
   \<and> APP_SLUG (APP_SLUG ''My_Cool App!!'') = APP_SLUG ''My_Cool App!!''"
proof -
  have h: "slug_line ''my-cool-app''" by code_simp
  from slug_idempotent [of "''My_Cool App!!''" "''my-cool-app''"] h show ?thesis by simp
qed

end
